theory Spec2Isabelle
  imports Main "HOL-Library.Multiset" "HOL-Library.Word"
begin

section \<open>Python runtime errors\<close>

text \<open>
  The exceptions of the Python runtime that the statistics worker can meet in the
  functions embedded below.
\<close>

datatype py_error = IndexError | TypeError | UnicodeEncodeError

section \<open>The bounded last-changed list\<close>

subsection \<open>KeyWrapper\<close>

text \<open>
  \<^verbatim>\<open>class KeyWrapper\<close> presents a list through a key function, so that the library's
  \<^verbatim>\<open>bisect\<close> compares the search value with \<^verbatim>\<open>key(iter[i])\<close>.
  \<^verbatim>\<open>__getitem__\<close> indexes the wrapped list and raises IndexError out of range
  (the bisection only passes indices that are not negative).
\<close>

record ('a, 'k) KeyWrapper =
  iter :: "'a list"
  key :: "'a \<Rightarrow> 'k"

definition kw_getitem :: "('a, 'k) KeyWrapper \<Rightarrow> nat \<Rightarrow> py_error + 'k" where
  "kw_getitem w i = (if i < length (iter w) then Inr (key w (iter w ! i)) else Inl IndexError)"

definition kw_len :: "('a, 'k) KeyWrapper \<Rightarrow> nat" where
  "kw_len w = length (iter w)"

subsection \<open>bisect\<close>

text \<open>
  \<^verbatim>\<open>bisect\<close> is \<^verbatim>\<open>bisect_right\<close> of the standard library, called with the defaults
  \<^verbatim>\<open>lo = 0\<close>, \<^verbatim>\<open>hi = len(a)\<close>:
  \<^verbatim>\<open>while lo < hi: mid = (lo + hi) // 2; if x < a[mid]: hi = mid else: lo = mid + 1\<close>
  and the result is \<^verbatim>\<open>lo\<close>.
\<close>

function bisect_loop ::
  "('a, 'k::linorder) KeyWrapper \<Rightarrow> 'k \<Rightarrow> nat \<Rightarrow> nat \<Rightarrow> py_error + nat" where
  "bisect_loop a x lo hi =
     (if lo < hi then
        (case kw_getitem a ((lo + hi) div 2) of
           Inl e \<Rightarrow> Inl e
         | Inr v \<Rightarrow>
             if x < v then bisect_loop a x lo ((lo + hi) div 2)
             else bisect_loop a x ((lo + hi) div 2 + 1) hi)
      else Inr lo)"
  by pat_completeness auto
termination
  by (relation "measure (\<lambda>(a, x, lo, hi). hi - lo)") auto

declare bisect_loop.simps [simp del]

definition bisect :: "('a, 'k::linorder) KeyWrapper \<Rightarrow> 'k \<Rightarrow> py_error + nat" where
  "bisect a x = bisect_loop a x 0 (kw_len a)"

subsection \<open>List primitives\<close>

text \<open>
  \<^verbatim>\<open>list.insert(i, v)\<close> for an index that is not negative: the element goes before
  position \<open>i\<close>, at the end when \<open>i\<close> is past the end.
  \<^verbatim>\<open>list.pop(i)\<close>: a negative index counts from the end, and an index outside the
  list raises IndexError.
\<close>

definition list_insert :: "'a list \<Rightarrow> nat \<Rightarrow> 'a \<Rightarrow> 'a list" where
  "list_insert xs i v = take i xs @ v # drop i xs"

definition list_pop :: "'a list \<Rightarrow> int \<Rightarrow> py_error + 'a list" where
  "list_pop xs i =
     (let n = int (length xs); j = (if i < 0 then i + n else i)
      in if j < 0 \<or> n \<le> j then Inl IndexError
         else Inr (take (nat j) xs @ drop (Suc (nat j)) xs))"

subsection \<open>analyze\_change\<close>

text \<open>
  \<^verbatim>\<open>analyze_change(obj_list, obj_handle, change, max_length)\<close> mutates \<^verbatim>\<open>obj_list\<close>;
  the model returns the new list. Entries are pairs \<open>(handle, change)\<close> and the key
  of the wrapper is the second component.
\<close>

definition analyze_change ::
  "('h \<times> int) list \<Rightarrow> 'h \<Rightarrow> int \<Rightarrow> int \<Rightarrow> py_error + ('h \<times> int) list" where
  "analyze_change obj_list obj_handle change max_length =
     (case bisect \<lparr>iter = obj_list, key = snd\<rparr> change of
        Inl e \<Rightarrow> Inl e
      | Inr bsindex \<Rightarrow>
          (let obj_list' = list_insert obj_list bsindex (obj_handle, change)
           in if int (length obj_list') > max_length then list_pop obj_list' max_length
              else Inr obj_list'))"

text \<open>
  The loop every worker runs over its records: one call of \<^verbatim>\<open>analyze_change\<close> per
  record on the same list, an exception ending the run.
\<close>

fun analyze_changes ::
  "('h \<times> int) list \<Rightarrow> ('h \<times> int) list \<Rightarrow> int \<Rightarrow> py_error + ('h \<times> int) list" where
  "analyze_changes obj_list [] max_length = Inr obj_list"
| "analyze_changes obj_list ((h, c) # rs) max_length =
     (case analyze_change obj_list h c max_length of
        Inl e \<Rightarrow> Inl e
      | Inr obj_list' \<Rightarrow> analyze_changes obj_list' rs max_length)"

text \<open>
  Each of the ten workers starts from \<^verbatim>\<open>last_changed = []\<close> and passes the bound 20; the
  result is the \<^verbatim>\<open>changed\<close> list of its payload.
\<close>

definition last_changed_list :: "('h \<times> int) list \<Rightarrow> py_error + ('h \<times> int) list" where
  "last_changed_list records = analyze_changes [] records 20"

section \<open>Merging worker payloads\<close>







section \<open>The database and its lock file\<close>

text \<open>
  What the worker reads from a loaded family tree: the directory it was loaded from,
  the ten object counts and the media objects. A media object carries the attributes
  \<^verbatim>\<open>examine_media\<close> looks at; \<open>obj_date\<close> is the text \<^verbatim>\<open>get_date(media)\<close> returns.
\<close>

record media =
  obj_desc :: string
  obj_date :: string
  obj_mime :: string
  obj_private :: bool
  obj_tag_list :: "string list"
  obj_path :: string
  obj_handle :: string
  obj_change :: int

record database =
  get_save_path :: string
  get_number_of_people :: int
  get_number_of_families :: int
  get_number_of_events :: int
  get_number_of_places :: int
  get_number_of_media :: int
  get_number_of_sources :: int
  get_number_of_citations :: int
  get_number_of_repositories :: int
  get_number_of_notes :: int
  get_number_of_tags :: int
  iter_media :: "media list"

text \<open>
  \<^verbatim>\<open>open_readonly_database\<close>: the host's \<^verbatim>\<open>lookup_family_tree\<close> returns \<^verbatim>\<open>None\<close> for a
  tree it does not know, and unpacking that raises TypeError (which \<^verbatim>\<open>main\<close> catches).
  The host's catalogue of trees is the parameter \<open>trees\<close>.
\<close>

definition open_readonly_database ::
  "(string \<Rightarrow> database option) \<Rightarrow> string \<Rightarrow> py_error + database" where
  "open_readonly_database trees dbname =
     (case trees dbname of None \<Rightarrow> Inl TypeError | Some db \<Rightarrow> Inr db)"




section \<open>The object list\<close>

text \<open>
  \<^verbatim>\<open>get_object_list\<close>: \<^verbatim>\<open>list.sort(key=..., reverse=True)\<close> is a stable sort into
  non-increasing key order, which for integer keys is the stable sort by the negated
  key. (Closing the database acts on the file system only.)
\<close>

definition object_list :: "database \<Rightarrow> (string \<times> int) list" where
  "object_list db =
     [(''Person'', get_number_of_people db),
      (''Family'', get_number_of_families db),
      (''Event'', get_number_of_events db),
      (''Place'', get_number_of_places db),
      (''Media'', get_number_of_media db),
      (''Source'', get_number_of_sources db),
      (''Citation'', get_number_of_citations db),
      (''Repository'', get_number_of_repositories db),
      (''Note'', get_number_of_notes db),
      (''Tag'', get_number_of_tags db)]"

definition get_object_list ::
  "(string \<Rightarrow> database option) \<Rightarrow> string \<Rightarrow> py_error + (int \<times> string list)" where
  "get_object_list trees dbname =
     (case open_readonly_database trees dbname of
        Inl e \<Rightarrow> Inl e
      | Inr db \<Rightarrow>
          (let sorted_list = sort_key (\<lambda>x. - snd x) (object_list db);
               total = sum_list (map snd sorted_list)
           in Inr (total, map fst sorted_list)))"

text \<open>The keys of \<^verbatim>\<open>TASK_HANDLERS\<close>, and the count the database reports for a type.\<close>

definition object_types :: "string list" where
  "object_types = [''Person'', ''Family'', ''Event'', ''Place'', ''Media'', ''Source'',
                   ''Citation'', ''Repository'', ''Note'', ''Tag'']"

definition object_count :: "database \<Rightarrow> string \<Rightarrow> int" where
  "object_count db name = (case map_of (object_list db) name of None \<Rightarrow> 0 | Some c \<Rightarrow> c)"


section \<open>The media worker\<close>









section \<open>The effects of the workers\<close>

text \<open>
  What a worker does to the world outside its own variables, in the order of the
  source: it opens the database, iterates over the records, closes the database
  (\<^verbatim>\<open>close_readonly_database\<close>), puts its payload on the queue, and prints the run
  time when \<^verbatim>\<open>args.time\<close> is set.
\<close>

datatype effect = OpenDatabase | IterateRecords | CloseDatabase | QueuePut | PrintTime

definition print_time :: "bool \<Rightarrow> effect list" where
  "print_time time = (if time then [PrintTime] else [])"

definition examine_people_effects :: "bool \<Rightarrow> effect list" where
  "examine_people_effects time =
     [OpenDatabase, IterateRecords, CloseDatabase, QueuePut] @ print_time time"

definition examine_families_effects :: "bool \<Rightarrow> effect list" where
  "examine_families_effects time =
     [OpenDatabase, IterateRecords, CloseDatabase, QueuePut] @ print_time time"

definition examine_events_effects :: "bool \<Rightarrow> effect list" where
  "examine_events_effects time =
     [OpenDatabase, IterateRecords, CloseDatabase, QueuePut] @ print_time time"

definition examine_places_effects :: "bool \<Rightarrow> effect list" where
  "examine_places_effects time =
     [OpenDatabase, IterateRecords, CloseDatabase, QueuePut] @ print_time time"

definition examine_media_effects :: "bool \<Rightarrow> effect list" where
  "examine_media_effects time =
     [OpenDatabase, IterateRecords, QueuePut] @ print_time time"

definition examine_sources_effects :: "bool \<Rightarrow> effect list" where
  "examine_sources_effects time =
     [OpenDatabase, IterateRecords, CloseDatabase, QueuePut] @ print_time time"

definition examine_citations_effects :: "bool \<Rightarrow> effect list" where
  "examine_citations_effects time =
     [OpenDatabase, IterateRecords, CloseDatabase, QueuePut] @ print_time time"

definition examine_repositories_effects :: "bool \<Rightarrow> effect list" where
  "examine_repositories_effects time =
     [OpenDatabase, IterateRecords, CloseDatabase, QueuePut] @ print_time time"

definition examine_notes_effects :: "bool \<Rightarrow> effect list" where
  "examine_notes_effects time =
     [OpenDatabase, IterateRecords, CloseDatabase, QueuePut] @ print_time time"

definition examine_tags_effects :: "bool \<Rightarrow> effect list" where
  "examine_tags_effects time =
     [OpenDatabase, IterateRecords, CloseDatabase, QueuePut] @ print_time time"

text \<open>
  Replaying the effects from a state in which the database is open or not: every put
  on the queue happens with the database closed, and there is a put after a close.
\<close>

fun closed_at_put :: "bool \<Rightarrow> effect list \<Rightarrow> bool" where
  "closed_at_put is_open [] = True"
| "closed_at_put is_open (OpenDatabase # es) = closed_at_put True es"
| "closed_at_put is_open (CloseDatabase # es) = closed_at_put False es"
| "closed_at_put is_open (QueuePut # es) = (\<not> is_open \<and> closed_at_put is_open es)"
| "closed_at_put is_open (IterateRecords # es) = closed_at_put is_open es"
| "closed_at_put is_open (PrintTime # es) = closed_at_put is_open es"

definition opens_closes_puts :: "effect list \<Rightarrow> bool" where
  "opens_closes_puts es \<longleftrightarrow>
     OpenDatabase \<in> set es \<and> QueuePut \<in> set es \<and> closed_at_put False es"

section \<open>The output of main\<close>

text \<open>
  Bytes are 8-bit words and a Python string is the list of its code points.
  \<^verbatim>\<open>bytes.decode("latin-1")\<close> maps each byte to the code point of the same number;
  \<^verbatim>\<open>str.encode("latin-1")\<close> raises UnicodeEncodeError on a code point above 255.
  \<^verbatim>\<open>print(text, end=e)\<close> writes the text followed by \<open>e\<close>. The serializer
  \<^verbatim>\<open>pickle.dumps\<close> is the parameter \<open>dumps\<close>. \<open>main_output\<close> is what \<^verbatim>\<open>main\<close> writes
  to standard output when \<^verbatim>\<open>args.yaml\<close> is not set (the run times go to standard error).
\<close>

type_synonym byte = "8 word"

definition latin1_decode :: "byte list \<Rightarrow> nat list" where
  "latin1_decode bs = map unat bs"

definition latin1_encode :: "nat list \<Rightarrow> py_error + byte list" where
  "latin1_encode text =
     (if list_all (\<lambda>c. c < 256) text then Inr (map of_nat text) else Inl UnicodeEncodeError)"

definition py_print :: "nat list \<Rightarrow> nat list \<Rightarrow> nat list" where
  "py_print text end_text = text @ end_text"

definition main_output :: "('facts \<Rightarrow> byte list) \<Rightarrow> 'facts \<Rightarrow> nat list" where
  "main_output dumps facts = py_print (latin1_decode (dumps facts)) []"



section \<open>Concrete inputs\<close>












definition example_db :: "string \<Rightarrow> database" where
  "example_db dir =
     \<lparr>get_save_path = dir, get_number_of_people = 5, get_number_of_families = 2,
      get_number_of_events = 9, get_number_of_places = 2, get_number_of_media = 0,
      get_number_of_sources = 1, get_number_of_citations = 7, get_number_of_repositories = 1,
      get_number_of_notes = 3, get_number_of_tags = 0, iter_media = []\<rparr>"

definition bit_dumps :: "bool \<Rightarrow> byte list" where
  "bit_dumps b = [if b then 255 else 10]"

definition bit_loads :: "byte list \<Rightarrow> bool" where
  "bit_loads bs = (bs = [255])"

definition example_trees :: "string \<Rightarrow> database option" where
  "example_trees name = (if name = ''tree'' then Some (example_db ''/trees/a'') else None)"







section \<open>Properties of the bounded last-changed list\<close>

subsection \<open>The bisection\<close>

text \<open>
  On a list sorted by key the bisection returns, without raising, the position after
  the last entry whose key is at most the search value. On any list it returns a
  position within the list.
\<close>

lemma bisect_loop_spec:
  assumes "lo \<le> hi" "hi \<le> length (iter a)"
    "\<forall>i<lo. key a (iter a ! i) \<le> x"
    "\<forall>i. hi \<le> i \<and> i < length (iter a) \<longrightarrow> x < key a (iter a ! i)"
    "sorted (map (key a) (iter a))"
  shows "\<exists>r. bisect_loop a x lo hi = Inr r \<and> lo \<le> r \<and> r \<le> hi
           \<and> (\<forall>i<r. key a (iter a ! i) \<le> x)
           \<and> (\<forall>i. r \<le> i \<and> i < length (iter a) \<longrightarrow> x < key a (iter a ! i))"
  using assms
proof (induction a x lo hi rule: bisect_loop.induct)
  case (1 a x lo hi)
  let ?mid = "(lo + hi) div 2"
  show ?case
  proof (cases "lo < hi")
    case False
    with "1.prems" show ?thesis by (subst bisect_loop.simps) auto
  next
    case True
    then have mid: "lo \<le> ?mid" "?mid < hi" "?mid < length (iter a)"
      using "1.prems"(2) by auto
    then have gi: "kw_getitem a ?mid = Inr (key a (iter a ! ?mid))"
      by (simp add: kw_getitem_def)
    have mono: "\<And>i j. i \<le> j \<Longrightarrow> j < length (iter a) \<Longrightarrow> key a (iter a ! i) \<le> key a (iter a ! j)"
      using "1.prems"(5) by (simp add: sorted_iff_nth_mono)
    show ?thesis
    proof (cases "x < key a (iter a ! ?mid)")
      case lt: True
      have up: "\<forall>i. ?mid \<le> i \<and> i < length (iter a) \<longrightarrow> x < key a (iter a ! i)"
        using lt mono by (meson less_le_trans)
      have "\<exists>r. bisect_loop a x lo ?mid = Inr r \<and> lo \<le> r \<and> r \<le> ?mid
           \<and> (\<forall>i<r. key a (iter a ! i) \<le> x)
           \<and> (\<forall>i. r \<le> i \<and> i < length (iter a) \<longrightarrow> x < key a (iter a ! i))"
        using "1.IH"(1) [OF True gi lt mid(1) _ "1.prems"(3) up "1.prems"(5)] mid by simp
      then show ?thesis
        using True gi lt mid by (subst bisect_loop.simps) auto
    next
      case ge: False
      have low: "\<forall>i<?mid + 1. key a (iter a ! i) \<le> x"
      proof (intro allI impI)
        fix i assume "i < ?mid + 1"
        then have "key a (iter a ! i) \<le> key a (iter a ! ?mid)"
          using mono [of i ?mid] mid by simp
        with ge show "key a (iter a ! i) \<le> x" by simp
      qed
      have "\<exists>r. bisect_loop a x (?mid + 1) hi = Inr r \<and> ?mid + 1 \<le> r \<and> r \<le> hi
           \<and> (\<forall>i<r. key a (iter a ! i) \<le> x)
           \<and> (\<forall>i. r \<le> i \<and> i < length (iter a) \<longrightarrow> x < key a (iter a ! i))"
        using "1.IH"(2) [OF True gi ge _ "1.prems"(2) low "1.prems"(4) "1.prems"(5)] mid by simp
      then show ?thesis
        using True gi ge mid by (subst bisect_loop.simps) auto
    qed
  qed
qed


lemma bisect_loop_total:
  "lo \<le> hi \<Longrightarrow> hi \<le> length (iter a) \<Longrightarrow>
     \<exists>r. bisect_loop a x lo hi = Inr r \<and> lo \<le> r \<and> r \<le> hi"
proof (induction a x lo hi rule: bisect_loop.induct)
  case (1 a x lo hi)
  let ?mid = "(lo + hi) div 2"
  show ?case
  proof (cases "lo < hi")
    case False
    with "1.prems" show ?thesis by (subst bisect_loop.simps) auto
  next
    case True
    then have mid: "lo \<le> ?mid" "?mid < hi" "?mid < length (iter a)"
      using "1.prems"(2) by auto
    then have gi: "kw_getitem a ?mid = Inr (key a (iter a ! ?mid))"
      by (simp add: kw_getitem_def)
    show ?thesis
    proof (cases "x < key a (iter a ! ?mid)")
      case lt: True
      have "\<exists>r. bisect_loop a x lo ?mid = Inr r \<and> lo \<le> r \<and> r \<le> ?mid"
        using "1.IH"(1) [OF True gi lt mid(1)] mid by simp
      then show ?thesis
        using True gi lt mid by (subst bisect_loop.simps) auto
    next
      case ge: False
      have "\<exists>r. bisect_loop a x (?mid + 1) hi = Inr r \<and> ?mid + 1 \<le> r \<and> r \<le> hi"
        using "1.IH"(2) [OF True gi ge _ "1.prems"(2)] mid by simp
      then show ?thesis
        using True gi ge mid by (subst bisect_loop.simps) auto
    qed
  qed
qed

lemma bisect_total: "\<exists>r. bisect \<lparr>iter = xs, key = f\<rparr> x = Inr r \<and> r \<le> length xs"
  using bisect_loop_total [of 0 "length xs" "\<lparr>iter = xs, key = f\<rparr>" x]
  by (auto simp: bisect_def kw_len_def)

lemma bisect_sorted:
  assumes "sorted (map f xs)"
  shows "\<exists>r. bisect \<lparr>iter = xs, key = f\<rparr> x = Inr r \<and> r \<le> length xs
           \<and> (\<forall>i<r. f (xs ! i) \<le> x)
           \<and> (\<forall>i. r \<le> i \<and> i < length xs \<longrightarrow> x < f (xs ! i))"
proof -
  let ?a = "\<lparr>iter = xs, key = f\<rparr>"
  have "\<exists>r. bisect_loop ?a x 0 (length (iter ?a)) = Inr r \<and> 0 \<le> r \<and> r \<le> length (iter ?a)
           \<and> (\<forall>i<r. key ?a (iter ?a ! i) \<le> x)
           \<and> (\<forall>i. r \<le> i \<and> i < length (iter ?a) \<longrightarrow> x < key ?a (iter ?a ! i))"
    by (rule bisect_loop_spec) (use assms in auto)
  then show ?thesis by (simp add: bisect_def kw_len_def)
qed

lemma list_insert_sorted:
  assumes "sorted (map f xs)" "r \<le> length xs" "\<forall>i<r. f (xs ! i) \<le> f v"
    "\<forall>i. r \<le> i \<and> i < length xs \<longrightarrow> f v < f (xs ! i)"
  shows "sorted (map f (list_insert xs r v))"
proof -
  have a: "\<forall>y\<in>set (take r xs). f y \<le> f v"
    using assms(2,3) by (auto simp: in_set_conv_nth)
  have b: "\<forall>y\<in>set (drop r xs). f v \<le> f y"
  proof
    fix y assume "y \<in> set (drop r xs)"
    then obtain i where "i < length xs - r" "y = xs ! (r + i)"
      by (auto simp: in_set_conv_nth)
    then show "f v \<le> f y" using assms(4) by (simp add: less_imp_le)
  qed
  have c: "sorted (map f (take r xs))" "sorted (map f (drop r xs))"
    using assms(1) by (simp_all add: sorted_wrt_take sorted_wrt_drop sorted_map)
  have d: "\<forall>y\<in>set (take r xs). \<forall>z\<in>set (drop r xs). f y \<le> f z"
    using a b by (meson order_trans)
  show ?thesis
    unfolding list_insert_def using a b c d by (auto simp: sorted_append)
qed

lemma list_pop_sorted:
  assumes "sorted (map f ys)" "list_pop ys m = Inr zs"
  shows "sorted (map f zs)"
proof -
  obtain j where zs: "zs = take j ys @ drop (Suc j) ys"
    using assms(2) by (auto simp: list_pop_def Let_def split: if_splits)
  have s: "sorted (map f (take j ys @ drop j ys))" using assms(1) by simp
  have sub: "set (drop (Suc j) ys) \<subseteq> set (drop j ys)"
    by (metis drop_Suc set_drop_subset tl_drop drop_drop plus_1_eq_Suc set_drop_subset_set_drop Suc_n_not_le_n nat_le_linear)
  show ?thesis
    unfolding zs using s sub assms(1)
    by (auto simp: sorted_append sorted_wrt_take sorted_wrt_drop sorted_map simp del: append_take_drop_id)
qed


lemma analyze_change_inv:
  assumes "sorted (map snd obj_list)" "int (length obj_list) \<le> max_length"
  shows "\<exists>l. analyze_change obj_list h c max_length = Inr l \<and> sorted (map snd l)
           \<and> int (length l) \<le> max_length"
proof -
  obtain r where r: "bisect \<lparr>iter = obj_list, key = snd\<rparr> c = Inr r" "r \<le> length obj_list"
    "\<forall>i<r. snd (obj_list ! i) \<le> c"
    "\<forall>i. r \<le> i \<and> i < length obj_list \<longrightarrow> c < snd (obj_list ! i)"
    using bisect_sorted [OF assms(1), of c] by blast
  let ?ys = "list_insert obj_list r (h, c)"
  have s: "sorted (map snd ?ys)"
    by (rule list_insert_sorted) (use assms(1) r in auto)
  have len: "length ?ys = Suc (length obj_list)"
    using r(2) by (simp add: list_insert_def)
  show ?thesis
  proof (cases "int (length ?ys) > max_length")
    case False
    then show ?thesis using r(1) s by (simp add: analyze_change_def Let_def)
  next
    case True
    then have m: "max_length = int (length obj_list)" using assms(2) len by simp
    have "list_pop ?ys max_length = Inr (take (length obj_list) ?ys)"
      using len by (simp add: list_pop_def m)
    moreover have "sorted (map snd (take (length obj_list) ?ys))"
      using s by (simp add: sorted_wrt_take sorted_map)
    ultimately show ?thesis
      using r(1) True len by (simp add: analyze_change_def Let_def m)
  qed
qed

lemma analyze_changes_inv:
  "sorted (map snd obj_list) \<Longrightarrow> int (length obj_list) \<le> max_length \<Longrightarrow>
     \<exists>l. analyze_changes obj_list records max_length = Inr l \<and> sorted (map snd l)
        \<and> int (length l) \<le> max_length"
proof (induction records arbitrary: obj_list)
  case Nil
  then show ?case by simp
next
  case (Cons rc records)
  obtain h c where rc: "rc = (h, c)" by (cases rc)
  obtain l where l: "analyze_change obj_list h c max_length = Inr l" "sorted (map snd l)"
    "int (length l) \<le> max_length"
    using analyze_change_inv [OF Cons.prems] by blast
  show ?case using Cons.IH [OF l(2,3)] l(1) by (simp add: rc)
qed

text \<open>
  C5. \<^verbatim>\<open>analyze_change\<close> preserves the bounded-sorted invariant: called on a list
  that is sorted ascending by its change component and has at most \<open>max_length\<close>
  entries, it returns (it does not raise) a list that is again sorted ascending and
  has at most \<open>max_length\<close> entries. Consequently the list a worker builds from the
  empty list with bound 20, one call per record, has at most 20 entries and is sorted
  ascending by change value.
\<close>

theorem analyze_change_bounded_sorted:
  "(sorted (map snd obj_list) \<and> int (length obj_list) \<le> max_length \<longrightarrow>
      (\<exists>l. analyze_change obj_list h c max_length = Inr l \<and> sorted (map snd l)
          \<and> int (length l) \<le> max_length))
   \<and> (\<exists>l. last_changed_list records = Inr l \<and> sorted (map snd l) \<and> length l \<le> 20)"
proof
  show "sorted (map snd obj_list) \<and> int (length obj_list) \<le> max_length \<longrightarrow>
      (\<exists>l. analyze_change obj_list h c max_length = Inr l \<and> sorted (map snd l)
          \<and> int (length l) \<le> max_length)"
    by (intro impI analyze_change_inv) simp_all
  show "\<exists>l. last_changed_list records = Inr l \<and> sorted (map snd l) \<and> length l \<le> 20"
  proof -
    obtain l where "analyze_changes [] records 20 = Inr l" "sorted (map snd l)" "int (length l) \<le> 20"
      using analyze_changes_inv [of "[]" 20 records] by auto
    then show ?thesis by (simp add: last_changed_list_def)
  qed
qed

theorem analyze_change_bounded_sorted_witness:
  "sorted (map snd [(''a'', 1::int), (''b'', 3)]) \<and> int (length [(''a'', 1::int), (''b'', 3)]) \<le> 2
   \<and> analyze_change [(''a'', 1), (''b'', 3)] ''c'' 2 2 = Inr [(''a'', 1), (''c'', 2)]
   \<and> (\<exists>l. analyze_change [(''a'', 1), (''b'', 3)] ''c'' 2 2 = Inr l \<and> sorted (map snd l)
          \<and> int (length l) \<le> 2)"
proof -
  have e: "analyze_change [(''a'', 1), (''b'', 3)] ''c'' 2 2 = Inr [(''a'', 1), (''c'', 2)]"
    by code_simp
  show ?thesis
    using analyze_change_bounded_sorted [of "[(''a'', 1), (''b'', 3)]" 2 "''c''" 2 "[]"]
    by (simp add: e)
qed

subsection \<open>What the list keeps\<close>

text \<open>
  The bisection inserts a record after the entries whose change value is at most its
  own, and the entry dropped from a list over its bound is the last one. So a list
  built from the empty list with a bound that is not negative is the stable sort of
  the records by ascending change value, cut to the bound: it keeps the records with
  the smallest change values.
\<close>

lemma split_at_position:
  fixes c :: "'b::linorder"
  assumes "r \<le> length xs" "\<forall>i<r. f (xs ! i) \<le> c"
    "\<forall>i. r \<le> i \<and> i < length xs \<longrightarrow> c < f (xs ! i)"
  shows "take r xs = filter (\<lambda>y. f y \<le> c) xs" "drop r xs = filter (\<lambda>y. c < f y) xs"
proof -
  have a: "\<forall>y\<in>set (take r xs). f y \<le> c"
    using assms(1,2) by (auto simp: in_set_conv_nth)
  have b: "\<forall>y\<in>set (drop r xs). c < f y"
  proof
    fix y assume "y \<in> set (drop r xs)"
    then obtain i where "i < length xs - r" "y = xs ! (r + i)"
      by (auto simp: in_set_conv_nth)
    then show "c < f y" using assms(3) by simp
  qed
  have sp: "filter P xs = filter P (take r xs) @ filter P (drop r xs)" for P :: "'a \<Rightarrow> bool"
    by (metis append_take_drop_id filter_append)
  have "filter (\<lambda>y. f y \<le> c) (take r xs) = take r xs"
    using a by (simp add: filter_id_conv)
  moreover have "filter (\<lambda>y. f y \<le> c) (drop r xs) = []"
    using b by (simp add: filter_empty_conv not_le)
  ultimately show "take r xs = filter (\<lambda>y. f y \<le> c) xs"
    by (simp add: sp [of "\<lambda>y. f y \<le> c"])
  have "filter (\<lambda>y. c < f y) (take r xs) = []"
    using a by (simp add: filter_empty_conv not_less)
  moreover have "filter (\<lambda>y. c < f y) (drop r xs) = drop r xs"
    using b by (simp add: filter_id_conv)
  ultimately show "drop r xs = filter (\<lambda>y. c < f y) xs"
    by (simp add: sp [of "\<lambda>y. c < f y"])
qed


lemma sorted_partition:
  fixes c :: "'b::linorder"
  shows "sorted (map f xs) \<Longrightarrow> filter (\<lambda>y. f y \<le> c) xs @ filter (\<lambda>y. c < f y) xs = xs"
proof (induction xs)
  case Nil
  then show ?case by simp
next
  case (Cons y xs)
  have ih: "filter (\<lambda>y. f y \<le> c) xs @ filter (\<lambda>y. c < f y) xs = xs"
    by (rule Cons.IH) (use Cons.prems in simp)
  show ?case
  proof (cases "f y \<le> c")
    case True
    then show ?thesis by (simp add: ih)
  next
    case False
    have "\<forall>z\<in>set xs. f y \<le> f z" using Cons.prems by simp
    then have "\<forall>z\<in>set xs. c < f z" using False by (metis not_le less_le_trans)
    then have "filter (\<lambda>y. f y \<le> c) xs = []" "filter (\<lambda>y. c < f y) xs = xs"
      by (simp_all add: filter_empty_conv filter_id_conv not_le)
    then show ?thesis using False by simp
  qed
qed

lemma take_insert_take:
  fixes c :: "'b::linorder"
  assumes "sorted (map f xs)"
  shows "take n (filter (\<lambda>y. f y \<le> c) (take n xs) @ x # filter (\<lambda>y. c < f y) (take n xs))
       = take n (filter (\<lambda>y. f y \<le> c) xs @ x # filter (\<lambda>y. c < f y) xs)"
proof -
  let ?A = "filter (\<lambda>y. f y \<le> c) xs" and ?B = "filter (\<lambda>y. c < f y) xs"
  have "take n (?A @ ?B) = take n ?A @ take (n - length ?A) ?B" by simp
  then have t: "take n xs = take n ?A @ take (n - length ?A) ?B"
    by (simp only: sorted_partition [OF assms])
  have a1: "filter (\<lambda>y. f y \<le> c) (take n ?A) = take n ?A"
    by (rule filter_True) (auto dest!: in_set_takeD)
  have a2: "filter (\<lambda>y. f y \<le> c) (take (n - length ?A) ?B) = []"
    by (rule filter_False) (auto dest!: in_set_takeD)
  have b1: "filter (\<lambda>y. c < f y) (take n ?A) = []"
    by (rule filter_False) (auto dest!: in_set_takeD)
  have b2: "filter (\<lambda>y. c < f y) (take (n - length ?A) ?B) = take (n - length ?A) ?B"
    by (rule filter_True) (auto dest!: in_set_takeD)
  have fa: "filter (\<lambda>y. f y \<le> c) (take n xs) = take n ?A"
    unfolding t filter_append a1 a2 by simp
  have fb: "filter (\<lambda>y. c < f y) (take n xs) = take (n - length ?A) ?B"
    unfolding t filter_append b1 b2 by simp
  show ?thesis
  proof (cases "n \<le> length ?A")
    case True
    then show ?thesis unfolding fa fb by simp
  next
    case False
    then show ?thesis unfolding fa fb by (simp add: take_Cons' min_def)
  qed
qed


lemma sort_key_snoc:
  "sort_key f (src @ [x]) =
     filter (\<lambda>y. f y \<le> f x) (sort_key f src) @ x # filter (\<lambda>y. f x < f y) (sort_key f src)"
proof (rule properties_for_sort_key)
  let ?S = "sort_key f src"
  let ?ys = "filter (\<lambda>y. f y \<le> f x) ?S @ x # filter (\<lambda>y. f x < f y) ?S"
  have "mset (filter (\<lambda>y. f y \<le> f x) ?S) + mset (filter (\<lambda>y. \<not> f y \<le> f x) ?S) = mset ?S"
    by (simp del: mset_sort)
  then show "mset ?ys = mset (src @ [x])" by (simp add: not_le)
  have ab: "f a \<le> f b" if "f a \<le> f x" "f x < f b" for a b
    using that by order
  show "sorted (map f ?ys)"
    by (simp add: sorted_append sorted_filter less_imp_le) (use ab in blast)
  show "filter (\<lambda>y. f k = f y) ?ys = filter (\<lambda>y. f k = f y) (src @ [x])" for k
  proof -
    have st: "filter (\<lambda>y. f k = f y) ?S = filter (\<lambda>y. f k = f y) src"
      using sort_key_stable [of f "f k" src] by (simp add: eq_commute)
    consider "f k < f x" | "f k = f x" | "f x < f k" by (metis less_linear)
    then show ?thesis
    proof cases
      case 1
      have "filter (\<lambda>y. f k = f y) (filter (\<lambda>y. f y \<le> f x) ?S) = filter (\<lambda>y. f k = f y) ?S"
        using 1 by (simp add: filter_filter) (intro filter_cong refl, auto)
      moreover have "filter (\<lambda>y. f k = f y) (filter (\<lambda>y. f x < f y) ?S) = []"
        using 1 by (auto simp: filter_empty_conv)
      moreover have "f k \<noteq> f x" using 1 by simp
      ultimately show ?thesis using st by (simp del: filter_filter)
    next
      case 2
      have "filter (\<lambda>y. f k = f y) (filter (\<lambda>y. f y \<le> f x) ?S) = filter (\<lambda>y. f k = f y) ?S"
        using 2 by (simp add: filter_filter) (intro filter_cong refl, auto)
      moreover have "filter (\<lambda>y. f k = f y) (filter (\<lambda>y. f x < f y) ?S) = []"
        using 2 by (auto simp: filter_empty_conv)
      ultimately show ?thesis using 2 st by (simp del: filter_filter)
    next
      case 3
      have "filter (\<lambda>y. f k = f y) (filter (\<lambda>y. f y \<le> f x) ?S) = []"
        using 3 by (auto simp: filter_empty_conv)
      moreover have "filter (\<lambda>y. f k = f y) (filter (\<lambda>y. f x < f y) ?S) = filter (\<lambda>y. f k = f y) ?S"
        using 3 by (simp add: filter_filter) (intro filter_cong refl, auto)
      moreover have "f k \<noteq> f x" using 3 by simp
      ultimately show ?thesis using st by (simp del: filter_filter)
    qed
  qed
qed

lemma analyze_change_take:
  assumes "sorted (map snd S)"
  shows "analyze_change (take n S) h c (int n)
       = Inr (take n (filter (\<lambda>y. snd y \<le> c) S @ (h, c) # filter (\<lambda>y. c < snd y) S))"
proof -
  let ?xs = "take n S"
  have sx: "sorted (map snd ?xs)"
    using assms by (simp add: sorted_wrt_take sorted_map)
  obtain r where r: "bisect \<lparr>iter = ?xs, key = snd\<rparr> c = Inr r" "r \<le> length ?xs"
    "\<forall>i<r. snd (?xs ! i) \<le> c"
    "\<forall>i. r \<le> i \<and> i < length ?xs \<longrightarrow> c < snd (?xs ! i)"
    using bisect_sorted [OF sx, of c] by blast
  let ?ys = "filter (\<lambda>y. snd y \<le> c) ?xs @ (h, c) # filter (\<lambda>y. c < snd y) ?xs"
  have ins: "list_insert ?xs r (h, c) = ?ys"
    unfolding list_insert_def
    using split_at_position [of r ?xs snd c, OF r(2,3,4)] by simp
  have "length (list_insert ?xs r (h, c)) = Suc (length ?xs)"
    using r(2) by (simp add: list_insert_def)
  then have len: "length ?ys = Suc (length ?xs)" "length ?ys \<le> Suc n"
    unfolding ins by simp_all
  have res: "analyze_change ?xs h c (int n) = Inr (take n ?ys)"
  proof (cases "n < length ?ys")
    case True
    then have n: "length ?ys = Suc n" using len(2) by simp
    then have "list_pop ?ys (int n) = Inr (take n ?ys)"
      by (simp add: list_pop_def)
    then show ?thesis using True r(1) by (simp add: analyze_change_def ins)
  next
    case False
    then show ?thesis using r(1) by (simp add: analyze_change_def ins)
  qed
  show ?thesis
    unfolding res using take_insert_take [OF assms, of n c "(h, c)"] by simp
qed

lemma analyze_changes_take:
  "analyze_changes (take n (sort_key snd src)) rs (int n) = Inr (take n (sort_key snd (src @ rs)))"
proof (induction rs arbitrary: src)
  case Nil
  then show ?case by simp
next
  case (Cons rc rs)
  obtain h c where rc: "rc = (h, c)" by (cases rc)
  have "analyze_change (take n (sort_key snd src)) h c (int n)
          = Inr (take n (sort_key snd (src @ [(h, c)])))"
    using analyze_change_take [of "sort_key snd src" n h c] sort_key_snoc [of snd src "(h, c)"]
    by simp
  then show ?case using Cons.IH [of "src @ [(h, c)]"] by (simp add: rc)
qed

lemma analyze_changes_keeps_smallest:
  "0 \<le> max_length \<Longrightarrow>
     analyze_changes [] records max_length = Inr (take (nat max_length) (sort_key snd records))"
  using analyze_changes_take [of "nat max_length" "[]" records] by simp

text \<open>
  C1. Fed the records \<open>(a, 1)\<close> and \<open>(b, 2)\<close> with bound 1 from the empty list,
  \<^verbatim>\<open>analyze_change\<close> leaves the record with the smaller change value in the list:
  the entry it drops when the list is over its bound is the last one, the greatest.
\<close>

theorem analyze_change_keeps_oldest:
  "analyze_changes [] [(''a'', 1), (''b'', 2)] 1 = Inr [(''a'', 1)]"
  by code_simp

section \<open>Properties of the merge\<close>

subsection \<open>The two loops\<close>
























section \<open>Properties of the workers\<close>

text \<open>
  C2. Nine of the ten workers open the database, close it and then put their payload
  on the queue. \<^verbatim>\<open>examine_media\<close> does not: it never closes the database, so its
  payload is put with the database still open.
\<close>

theorem examine_media_skips_close:
  "opens_closes_puts (examine_people_effects time)
   \<and> opens_closes_puts (examine_families_effects time)
   \<and> opens_closes_puts (examine_events_effects time)
   \<and> opens_closes_puts (examine_places_effects time)
   \<and> opens_closes_puts (examine_sources_effects time)
   \<and> opens_closes_puts (examine_citations_effects time)
   \<and> opens_closes_puts (examine_repositories_effects time)
   \<and> opens_closes_puts (examine_notes_effects time)
   \<and> opens_closes_puts (examine_tags_effects time)
   \<and> \<not> opens_closes_puts (examine_media_effects time)"
  by (simp add: opens_closes_puts_def print_time_def examine_people_effects_def
      examine_families_effects_def examine_events_effects_def examine_places_effects_def
      examine_sources_effects_def examine_citations_effects_def
      examine_repositories_effects_def examine_notes_effects_def examine_tags_effects_def
      examine_media_effects_def)

subsection \<open>The media worker\<close>





section \<open>Properties of the database helpers\<close>

lemma object_list_names: "map fst (object_list db) = object_types"
  by (simp add: object_list_def object_types_def)

lemma object_types_distinct: "distinct object_types"
  by (simp add: object_types_def)

lemma object_count_entry:
  assumes "e \<in> set (object_list db)"
  shows "object_count db (fst e) = snd e"
proof -
  have "distinct (map fst (object_list db))"
    by (simp add: object_list_names object_types_distinct)
  moreover have "(fst e, snd e) \<in> set (object_list db)" using assms by simp
  ultimately have "map_of (object_list db) (fst e) = Some (snd e)"
    by (rule map_of_is_SomeI)
  then show ?thesis by (simp add: object_count_def)
qed

lemma object_list_total:
  "sum_list (map snd (object_list db)) =
     get_number_of_people db + get_number_of_families db + get_number_of_events db
     + get_number_of_places db + get_number_of_media db + get_number_of_sources db
     + get_number_of_citations db + get_number_of_repositories db + get_number_of_notes db
     + get_number_of_tags db"
  by (simp add: object_list_def)

lemma sorted_negated_keys:
  "sorted (map (\<lambda>x. - snd x) xs) \<Longrightarrow> sorted_wrt (\<lambda>x y. y \<le> x) (map snd (xs :: ('a \<times> int) list))"
  by (induction xs) auto

text \<open>
  C6. For a tree the host knows, \<^verbatim>\<open>get_object_list\<close> returns \<open>(total, names)\<close> where
  \<open>names\<close> is a permutation of the ten object type names, in order of non-increasing
  object count, and \<open>total\<close> is the sum of the ten counts.
\<close>

theorem get_object_list_spec:
  assumes "trees dbname = Some db"
  shows "\<exists>total names. get_object_list trees dbname = Inr (total, names)
           \<and> mset names = mset object_types
           \<and> sorted_wrt (\<lambda>x y. y \<le> x) (map (object_count db) names)
           \<and> total = get_number_of_people db + get_number_of_families db
               + get_number_of_events db + get_number_of_places db + get_number_of_media db
               + get_number_of_sources db + get_number_of_citations db
               + get_number_of_repositories db + get_number_of_notes db
               + get_number_of_tags db"
proof -
  let ?s = "sort_key (\<lambda>x. - snd x) (object_list db)"
  have r: "get_object_list trees dbname = Inr (sum_list (map snd ?s), map fst ?s)"
    using assms by (simp add: get_object_list_def open_readonly_database_def Let_def)
  have m: "mset ?s = mset (object_list db)" by simp
  have "mset (map fst ?s) = mset (map fst (object_list db))"
    using m by (metis mset_map)
  then have 1: "mset (map fst ?s) = mset object_types"
    by (simp only: object_list_names)
  have "\<forall>e\<in>set ?s. object_count db (fst e) = snd e"
    using object_count_entry [of _ db] by simp
  then have "map (\<lambda>e. object_count db (fst e)) ?s = map snd ?s"
    by (intro map_cong) simp_all
  then have "map (object_count db) (map fst ?s) = map snd ?s"
    by (simp add: comp_def)
  moreover have "sorted_wrt (\<lambda>x y. y \<le> x) (map snd ?s)"
    by (rule sorted_negated_keys) (rule sorted_sort_key)
  ultimately have 2: "sorted_wrt (\<lambda>x y. y \<le> x) (map (object_count db) (map fst ?s))"
    by (simp only:)
  have "sum_list (map snd ?s) = sum_mset (mset (map snd ?s))"
    by (simp only: sum_mset_sum_list)
  also have "mset (map snd ?s) = mset (map snd (object_list db))"
    using m by (metis mset_map)
  also have "sum_mset (mset (map snd (object_list db))) = sum_list (map snd (object_list db))"
    by (simp only: sum_mset_sum_list)
  finally have 3: "sum_list (map snd ?s) =
     get_number_of_people db + get_number_of_families db + get_number_of_events db
     + get_number_of_places db + get_number_of_media db + get_number_of_sources db
     + get_number_of_citations db + get_number_of_repositories db + get_number_of_notes db
     + get_number_of_tags db"
    by (simp only: object_list_total)
  show ?thesis using r 1 2 3 by blast
qed

theorem get_object_list_spec_witness:
  "example_trees ''tree'' = Some (example_db ''/trees/a'')
   \<and> get_object_list example_trees ''tree''
       = Inr (30, [''Event'', ''Citation'', ''Person'', ''Note'', ''Family'', ''Place'',
                   ''Source'', ''Repository'', ''Media'', ''Tag''])
   \<and> (\<exists>total names. get_object_list example_trees ''tree'' = Inr (total, names)
           \<and> mset names = mset object_types
           \<and> sorted_wrt (\<lambda>x y. y \<le> x) (map (object_count (example_db ''/trees/a'')) names))"
proof -
  have t: "example_trees ''tree'' = Some (example_db ''/trees/a'')"
    by (simp add: example_trees_def)
  have e: "get_object_list example_trees ''tree''
       = Inr (30, [''Event'', ''Citation'', ''Person'', ''Note'', ''Family'', ''Place'',
                   ''Source'', ''Repository'', ''Media'', ''Tag''])"
    by (simp add: get_object_list_def open_readonly_database_def object_list_def
        example_db_def example_trees_def)
  have "\<exists>total names. get_object_list example_trees ''tree'' = Inr (total, names)
           \<and> mset names = mset object_types
           \<and> sorted_wrt (\<lambda>x y. y \<le> x) (map (object_count (example_db ''/trees/a'')) names)"
    using get_object_list_spec [of example_trees "''tree''" "example_db ''/trees/a''"] t by blast
  then show ?thesis using t e by blast
qed




section \<open>Properties of the output\<close>

lemma latin1_roundtrip: "latin1_encode (latin1_decode bs) = Inr bs"
proof -
  have "unat c < 256" for c :: byte
    using unsigned_less [of c, where 'a = nat] by simp
  then have "list_all (\<lambda>c. c < 256) (map unat bs)"
    by (simp add: list_all_iff)
  moreover have "map of_nat (map unat bs) = bs"
    by (simp add: map_idI)
  ultimately show ?thesis by (simp add: latin1_encode_def latin1_decode_def)
qed

text \<open>
  C9. For a serializer with an inverse (\<^verbatim>\<open>pickle.loads(pickle.dumps(x)) == x\<close>), the text
  \<^verbatim>\<open>main\<close> prints by default is the latin-1 decoding of the serialized facts with
  nothing after it, and encoding that text as latin-1 succeeds and deserializes to
  the facts.
\<close>

theorem main_output_roundtrip:
  assumes "\<forall>x. loads (dumps x) = x"
  shows "main_output dumps facts = latin1_decode (dumps facts)
       \<and> (\<exists>bs. latin1_encode (main_output dumps facts) = Inr bs \<and> loads bs = facts)"
  using assms by (simp add: main_output_def py_print_def latin1_roundtrip)

theorem main_output_roundtrip_witness:
  "main_output bit_dumps True = [255]
   \<and> (\<exists>bs. latin1_encode (main_output bit_dumps True) = Inr bs \<and> bit_loads bs = True)"
proof -
  have r: "\<forall>x. bit_loads (bit_dumps x) = x"
    by (simp add: bit_loads_def bit_dumps_def)
  have o: "main_output bit_dumps True = [255]"
    by (simp add: main_output_def py_print_def latin1_decode_def bit_dumps_def)
  have t: "\<exists>bs. latin1_encode (main_output bit_dumps True) = Inr bs \<and> bit_loads bs = True"
    using main_output_roundtrip [OF r, of True] by blast
  show ?thesis using o t by blast
qed

end
